theory Spec2Isabelle
  imports Complex_Main "HOL-Library.Sublist"
begin

section \<open>Association analysis (\<^verbatim>\<open>01_assoziation.py\<close>): the data model\<close>

text \<open>
  An item is a string, a transaction is a list of items, and an item set is the tuple
  that \<^verbatim>\<open>itertools.combinations\<close> yields, modelled as a list of items.
  The dictionaries of the program (\<^verbatim>\<open>item_set_counts\<close>,
  \<^verbatim>\<open>frequent_item_sets\<close>) are iterated, so they are association lists in
  insertion order; a Python dictionary never holds a key twice, which is the property
  \<open>distinct (map fst d)\<close> of such a list. Counts and the number of transactions are
  Python integers (\<open>int\<close>).

  Python's \<^verbatim>\<open>/\<close> yields a float. The model takes the exact quotient in
  \<open>rat\<close>: rounding, underflow and the special values of IEEE arithmetic are not part
  of it. A division by zero raises \<^verbatim>\<open>ZeroDivisionError\<close> and a lookup of a
  missing key raises \<^verbatim>\<open>KeyError\<close>; both are values of the model.
  The module-level \<^verbatim>\<open>min_support\<close> and \<^verbatim>\<open>min_conf\<close> are
  explicit first arguments of the functions that read them.
\<close>

type_synonym item = string
type_synonym item_set = "item list"
type_synonym counts = "(item_set \<times> int) list"

datatype error = KeyError | ZeroDivisionError

text \<open>The dictionary \<^verbatim>\<open>{'x': x, 'y/x': y, 'conf': confidence, 'lift': lift}\<close>.\<close>

record rule =
  rule_x :: item_set
  rule_y :: "item set"
  rule_conf :: rat
  rule_lift :: rat

subsection \<open>Primitive operations of the language\<close>

text \<open>\<^verbatim>\<open>d[k]\<close> on a plain dictionary.\<close>

definition lookup :: "counts \<Rightarrow> item_set \<Rightarrow> error + int" where
  "lookup d k = (case map_of d k of None \<Rightarrow> Inl KeyError | Some c \<Rightarrow> Inr c)"

text \<open>\<^verbatim>\<open>a / b\<close> on two integers, and on two floats.\<close>

definition int_truediv :: "int \<Rightarrow> int \<Rightarrow> error + rat" where
  "int_truediv a b = (if b = 0 then Inl ZeroDivisionError else Inr (of_int a / of_int b))"

definition float_truediv :: "rat \<Rightarrow> rat \<Rightarrow> error + rat" where
  "float_truediv a b = (if b = 0 then Inl ZeroDivisionError else Inr (a / b))"

text \<open>
  A \<^verbatim>\<open>for\<close> loop over a list whose body updates a state and may raise: the
  first exception ends the loop.
\<close>

fun for_each :: "('a \<Rightarrow> 's \<Rightarrow> error + 's) \<Rightarrow> 'a list \<Rightarrow> 's \<Rightarrow> error + 's" where
  "for_each body [] s = Inr s"
| "for_each body (a # as) s =
     (case body a s of Inl e \<Rightarrow> Inl e | Inr s' \<Rightarrow> for_each body as s')"

text \<open>
  \<^verbatim>\<open>itertools.combinations(iterable, r)\<close>: the \<open>r\<close>-length subsequences of
  the input, chosen by position, in lexicographic order of the positions.
\<close>

fun combinations :: "'a list \<Rightarrow> nat \<Rightarrow> 'a list list" where
  "combinations xs 0 = [[]]"
| "combinations [] (Suc r) = []"
| "combinations (x # xs) (Suc r) =
     map ((#) x) (combinations xs r) @ combinations xs (Suc r)"

subsection \<open>The functions of the program\<close>

text \<open>
  \<^verbatim>\<open>generate_item_sets\<close>: for \<open>i\<close> in \<^verbatim>\<open>range(1, max_length + 1)\<close>,
  extend the result by the combinations of size \<open>i\<close>. The only caller passes the
  length of the transaction, so \<open>max_length\<close> is a natural number.
\<close>

definition generate_item_sets :: "item list \<Rightarrow> nat \<Rightarrow> item_set list" where
  "generate_item_sets transaction max_length =
     foldl (\<lambda>item_sets i. item_sets @ combinations transaction i) [] [1..<max_length + 1]"

text \<open>
  \<^verbatim>\<open>item_set_counts[item_set] += 1\<close> on a \<^verbatim>\<open>defaultdict(int)\<close>: a
  key that is present keeps its place, a new key is entered last with count 1.
\<close>

fun increment :: "counts \<Rightarrow> item_set \<Rightarrow> counts" where
  "increment [] k = [(k, 1)]"
| "increment ((k', c) # d) k =
     (if k' = k then (k', c + 1) # d else (k', c) # increment d k)"

definition count_item_sets :: "item list list \<Rightarrow> counts" where
  "count_item_sets transactions =
     foldl (\<lambda>item_set_counts transaction.
              foldl increment item_set_counts
                (generate_item_sets transaction (length transaction)))
       [] transactions"

text \<open>
  \<^verbatim>\<open>filter_item_sets\<close>: the dictionary comprehension evaluates
  \<^verbatim>\<open>count / total_transactions >= min_support\<close> for every entry, in order.
\<close>

fun filter_item_sets :: "rat \<Rightarrow> counts \<Rightarrow> int \<Rightarrow> error + counts" where
  "filter_item_sets min_support [] total_transactions = Inr []"
| "filter_item_sets min_support ((item_set, count) # item_set_counts) total_transactions =
     (case int_truediv count total_transactions of
        Inl e \<Rightarrow> Inl e
      | Inr support \<Rightarrow>
          (case filter_item_sets min_support item_set_counts total_transactions of
             Inl e \<Rightarrow> Inl e
           | Inr kept \<Rightarrow>
               Inr (if support \<ge> min_support then (item_set, count) # kept else kept)))"

text \<open>
  The list comprehension
  \<^verbatim>\<open>[frequent_item_sets[x] / total_transactions for x in antecedents]\<close>.
\<close>

fun antecedent_freqs :: "counts \<Rightarrow> int \<Rightarrow> item_set list \<Rightarrow> error + rat list" where
  "antecedent_freqs frequent_item_sets total_transactions [] = Inr []"
| "antecedent_freqs frequent_item_sets total_transactions (x # antecedents) =
     (case lookup frequent_item_sets x of
        Inl e \<Rightarrow> Inl e
      | Inr c \<Rightarrow>
          (case int_truediv c total_transactions of
             Inl e \<Rightarrow> Inl e
           | Inr q \<Rightarrow>
               (case antecedent_freqs frequent_item_sets total_transactions antecedents of
                  Inl e \<Rightarrow> Inl e
                | Inr qs \<Rightarrow> Inr (q # qs))))"

text \<open>The body of the innermost loop of \<^verbatim>\<open>generate_rules\<close>, for one \<open>x\<close>.\<close>

definition rule_body ::
  "rat \<Rightarrow> counts \<Rightarrow> int \<Rightarrow> item_set \<Rightarrow> rat \<Rightarrow> item_set \<Rightarrow> rule list \<Rightarrow> error + rule list" where
  "rule_body min_conf frequent_item_sets total_transactions item_set antecedentFreqProd x rules =
     (let y = set item_set - set x in
      (case lookup frequent_item_sets item_set of
         Inl e \<Rightarrow> Inl e
       | Inr c \<Rightarrow>
      (case int_truediv c total_transactions of
         Inl e \<Rightarrow> Inl e
       | Inr s \<Rightarrow>
      (case float_truediv s antecedentFreqProd of
         Inl e \<Rightarrow> Inl e
       | Inr lift \<Rightarrow>
      (case lookup frequent_item_sets item_set of
         Inl e \<Rightarrow> Inl e
       | Inr c' \<Rightarrow>
      (case lookup frequent_item_sets x of
         Inl e \<Rightarrow> Inl e
       | Inr cx \<Rightarrow>
      (case int_truediv c' cx of
         Inl e \<Rightarrow> Inl e
       | Inr confidence \<Rightarrow>
           Inr (if confidence \<ge> min_conf
                then rules @
                  [\<lparr>rule_x = x, rule_y = y, rule_conf = confidence, rule_lift = lift\<rparr>]
                else rules))))))))"

text \<open>The body of the loop over \<open>i\<close>: one slice of an item set.\<close>

definition slice_body ::
  "rat \<Rightarrow> counts \<Rightarrow> int \<Rightarrow> item_set \<Rightarrow> nat \<Rightarrow> rule list \<Rightarrow> error + rule list" where
  "slice_body min_conf frequent_item_sets total_transactions item_set i rules =
     (let antecedents = combinations item_set i in
      case antecedent_freqs frequent_item_sets total_transactions antecedents of
        Inl e \<Rightarrow> Inl e
      | Inr freqs \<Rightarrow>
          for_each
            (rule_body min_conf frequent_item_sets total_transactions item_set (prod_list freqs))
            antecedents rules)"

definition generate_rules :: "rat \<Rightarrow> counts \<Rightarrow> int \<Rightarrow> error + rule list" where
  "generate_rules min_conf frequent_item_sets total_transactions =
     for_each
       (\<lambda>item_set rules.
          for_each (slice_body min_conf frequent_item_sets total_transactions item_set)
            [1..<length item_set] rules)
       (map fst frequent_item_sets) []"

definition analyze_associations ::
  "rat \<Rightarrow> rat \<Rightarrow> item list list \<Rightarrow> error + rule list" where
  "analyze_associations min_support min_conf cells =
     (let item_set_counts = count_item_sets cells;
          total_transactions = int (length cells) in
      case filter_item_sets min_support item_set_counts total_transactions of
        Inl e \<Rightarrow> Inl e
      | Inr frequent_item_sets \<Rightarrow>
          generate_rules min_conf frequent_item_sets total_transactions)"

subsection \<open>The quantities the specification names\<close>

text \<open>
  \<open>count_of d k\<close> is the count a dictionary records for a key (0 for a key it does
  not hold), \<open>support_of\<close> the count over the number of transactions,
  \<open>confidence_of d s x\<close> the quotient \<open>count(S) / count(x)\<close>, and
  \<open>slice_denominator d n s i\<close> the product \<open>D\<^sub>i\<close> of the supports of all
  combinations of size \<open>i\<close> of \<open>s\<close>. \<open>emitted\<close> is what one candidate \<open>x\<close>
  contributes to the rule list: the rule, or nothing when its confidence is below
  \<open>min_conf\<close>.
\<close>

definition count_of :: "counts \<Rightarrow> item_set \<Rightarrow> int" where
  "count_of d k = (case map_of d k of None \<Rightarrow> 0 | Some c \<Rightarrow> c)"

definition support_of :: "counts \<Rightarrow> int \<Rightarrow> item_set \<Rightarrow> rat" where
  "support_of d n k = of_int (count_of d k) / of_int n"

definition confidence_of :: "counts \<Rightarrow> item_set \<Rightarrow> item_set \<Rightarrow> rat" where
  "confidence_of d s x = of_int (count_of d s) / of_int (count_of d x)"

definition slice_denominator :: "counts \<Rightarrow> int \<Rightarrow> item_set \<Rightarrow> nat \<Rightarrow> rat" where
  "slice_denominator d n s i = prod_list (map (support_of d n) (combinations s i))"

definition emitted :: "rat \<Rightarrow> counts \<Rightarrow> int \<Rightarrow> item_set \<Rightarrow> nat \<Rightarrow> item_set \<Rightarrow> rule list" where
  "emitted mc d n s i x =
     (if mc \<le> confidence_of d s x
      then [\<lparr>rule_x = x, rule_y = set s - set x, rule_conf = confidence_of d s x,
             rule_lift = support_of d n s / slice_denominator d n s i\<rparr>]
      else [])"

definition slice_rules :: "rat \<Rightarrow> counts \<Rightarrow> int \<Rightarrow> item_set \<Rightarrow> nat \<Rightarrow> rule list" where
  "slice_rules mc d n s i = concat (map (emitted mc d n s i) (combinations s i))"

definition item_set_rules :: "rat \<Rightarrow> counts \<Rightarrow> int \<Rightarrow> item_set \<Rightarrow> rule list" where
  "item_set_rules mc d n s = concat (map (slice_rules mc d n s) [1..<length s])"

text \<open>
  For the order of the enumeration: \<open>position_sets n\<close> is the enumeration run on the
  positions \<open>0, \<dots>, n - 1\<close> themselves, and \<open>size_then_lex\<close> puts a shorter list of
  positions before a longer one and orders lists of one length lexicographically
  (\<open>lex_less\<close>: the first position where two lists differ decides).
\<close>

definition position_sets :: "nat \<Rightarrow> nat list list" where
  "position_sets n = concat (map (combinations [0..<n]) [1..<Suc n])"

fun lex_less :: "nat list \<Rightarrow> nat list \<Rightarrow> bool" where
  "lex_less [] [] = False"
| "lex_less [] (b # q) = True"
| "lex_less (a # p) [] = False"
| "lex_less (a # p) (b # q) = (a < b \<or> (a = b \<and> lex_less p q))"

definition size_then_lex :: "nat list \<Rightarrow> nat list \<Rightarrow> bool" where
  "size_then_lex p q \<longleftrightarrow>
     length p < length q \<or> (length p = length q \<and> lex_less p q)"

section \<open>Loops, lookups and divisions\<close>

lemma filter_item_sets_eq:
  "filter_item_sets ms d n =
     (if n = 0 \<and> d \<noteq> [] then Inl ZeroDivisionError
      else Inr (filter (\<lambda>(s, c). ms \<le> of_int c / of_int n) d))"
  by (induction d) (auto simp: int_truediv_def)

lemma lookup_Inr: "lookup d k = Inr c \<longleftrightarrow> map_of d k = Some c"
  by (simp add: lookup_def split: option.splits)

lemma lookup_count_of: "lookup d k = Inr c \<Longrightarrow> count_of d k = c"
  by (simp add: lookup_def count_of_def split: option.splits)

lemma int_truediv_Inr: "int_truediv a b = Inr q \<longleftrightarrow> b \<noteq> 0 \<and> q = of_int a / of_int b"
  by (auto simp: int_truediv_def)

lemma float_truediv_Inr: "float_truediv a b = Inr q \<longleftrightarrow> b \<noteq> 0 \<and> q = a / b"
  by (auto simp: float_truediv_def)

lemma for_each_append:
  assumes "\<And>a s s'. a \<in> set as \<Longrightarrow> body a s = Inr s' \<Longrightarrow> s' = s @ g a"
    and "for_each body as s = Inr s'"
  shows "s' = s @ concat (map g as)"
  using assms
proof (induction as arbitrary: s)
  case Nil
  then show ?case by simp
next
  case (Cons a as)
  from Cons.prems(2) obtain s1 where s1: "body a s = Inr s1" and rest: "for_each body as s1 = Inr s'"
    by (auto split: sum.splits)
  from Cons.prems(1)[OF _ s1] have "s1 = s @ g a" by simp
  moreover have "s' = s1 @ concat (map g as)"
    using Cons.IH[OF _ rest] Cons.prems(1) by simp
  ultimately show ?case by simp
qed

lemma for_each_total:
  assumes "\<And>a s. a \<in> set as \<Longrightarrow> body a s = Inr (s @ g a)"
  shows "for_each body as s = Inr (s @ concat (map g as))"
  using assms by (induction as arbitrary: s) auto

lemma for_each_steps:
  assumes "\<And>a s s'. a \<in> set as \<Longrightarrow> body a s = Inr s' \<Longrightarrow> s' = s @ g a"
    and "for_each body as s = Inr s'"
    and "j < length as"
  shows "body (as ! j) (s @ concat (map g (take j as))) =
           Inr (s @ concat (map g (take (Suc j) as)))"
  using assms
proof (induction as arbitrary: s j)
  case Nil
  then show ?case by simp
next
  case (Cons a as)
  from Cons.prems(2) obtain s1 where s1: "body a s = Inr s1" and rest: "for_each body as s1 = Inr s'"
    by (auto split: sum.splits)
  from Cons.prems(1)[OF _ s1] have e: "s1 = s @ g a" by simp
  show ?case
  proof (cases j)
    case 0
    then show ?thesis using s1 e by simp
  next
    case (Suc k)
    with Cons.prems(3) have k: "k < length as" by simp
    have "body (as ! k) (s1 @ concat (map g (take k as))) =
           Inr (s1 @ concat (map g (take (Suc k) as)))"
      using Cons.IH[OF _ rest k] Cons.prems(1) by simp
    then show ?thesis using Suc e by simp
  qed
qed

lemma antecedent_freqs_Inr:
  "antecedent_freqs d n xs = Inr qs \<Longrightarrow>
     qs = map (support_of d n) xs \<and> (\<forall>x \<in> set xs. \<exists>c. map_of d x = Some c) \<and> (xs \<noteq> [] \<longrightarrow> n \<noteq> 0)"
proof (induction xs arbitrary: qs)
  case Nil
  then show ?case by simp
next
  case (Cons x xs)
  then show ?case
    by (auto split: sum.splits simp: lookup_Inr int_truediv_Inr support_of_def count_of_def)
qed

lemma antecedent_freqs_total:
  "(\<forall>x \<in> set xs. \<exists>c. map_of d x = Some c) \<Longrightarrow> n \<noteq> 0 \<Longrightarrow>
     antecedent_freqs d n xs = Inr (map (support_of d n) xs)"
  by (induction xs) (auto simp: lookup_def int_truediv_def support_of_def count_of_def)

lemma rule_body_Inr:
  assumes "rule_body mc d n s p x rules = Inr rules'"
  shows "\<exists>cs cx. map_of d s = Some cs \<and> map_of d x = Some cx \<and> cx \<noteq> 0 \<and> n \<noteq> 0 \<and> p \<noteq> 0 \<and>
     rules' = rules @
       (if mc \<le> of_int cs / of_int cx
        then [\<lparr>rule_x = x, rule_y = set s - set x, rule_conf = of_int cs / of_int cx,
               rule_lift = of_int cs / of_int n / p\<rparr>]
        else [])"
  using assms
  by (auto simp: rule_body_def Let_def lookup_Inr int_truediv_Inr float_truediv_Inr
      split: sum.splits if_splits)


lemma rule_body_emitted:
  assumes "rule_body mc d n s (slice_denominator d n s i) x rules = Inr rules'"
  shows "rules' = rules @ emitted mc d n s i x"
  using rule_body_Inr[OF assms]
  by (auto simp: emitted_def confidence_of_def support_of_def count_of_def)

lemma slice_body_Inr:
  assumes "slice_body mc d n s i rules = Inr rules'"
  shows "rules' = rules @ concat (map (emitted mc d n s i) (combinations s i))"
proof -
  from assms obtain qs where qs: "antecedent_freqs d n (combinations s i) = Inr qs"
    and loop: "for_each (rule_body mc d n s (prod_list qs)) (combinations s i) rules = Inr rules'"
    by (auto simp: slice_body_def Let_def split: sum.splits)
  from antecedent_freqs_Inr[OF qs] have "prod_list qs = slice_denominator d n s i"
    by (simp add: slice_denominator_def)
  with loop have "for_each (rule_body mc d n s (slice_denominator d n s i)) (combinations s i) rules
      = Inr rules'" by simp
  then show ?thesis
    by (rule for_each_append[rotated]) (rule rule_body_emitted)
qed

lemma generate_rules_Inr:
  assumes "generate_rules mc d n = Inr rules"
  shows "rules = concat (map (item_set_rules mc d n) (map fst d))"
proof -
  have inner: "rs' = rs @ item_set_rules mc d n s"
    if "for_each (slice_body mc d n s) [1..<length s] rs = Inr rs'" for s rs rs'
    unfolding item_set_rules_def
    by (rule for_each_append[OF _ that]) (simp add: slice_rules_def slice_body_Inr)
  have "rules = [] @ concat (map (item_set_rules mc d n) (map fst d))"
    by (rule for_each_append[OF _ assms[unfolded generate_rules_def]]) (rule inner)
  then show ?thesis by simp
qed


lemma generate_rules_slice:
  assumes ok: "generate_rules mc d n = Inr rules"
    and s: "s \<in> set (map fst d)" and i: "1 \<le> i" "i < length s"
  shows "\<exists>before after. rules = before @ slice_rules mc d n s i @ after \<and>
           slice_body mc d n s i before = Inr (before @ slice_rules mc d n s i)"
proof -
  let ?keys = "map fst d"
  let ?is = "[1..<length s]"
  from s obtain k where k: "k < length ?keys" "?keys ! k = s"
    by (metis in_set_conv_nth)
  define j where "j = i - 1"
  have j: "j < length ?is" "?is ! j = i" using i by (auto simp: j_def)
  have inner: "rs' = rs @ item_set_rules mc d n t"
    if "for_each (slice_body mc d n t) [1..<length t] rs = Inr rs'" for t rs rs'
    unfolding item_set_rules_def
    by (rule for_each_append[OF _ that]) (simp add: slice_rules_def slice_body_Inr)
  let ?st = "[] @ concat (map (item_set_rules mc d n) (take k ?keys))"
  have "for_each (slice_body mc d n (?keys ! k)) [1..<length (?keys ! k)] ?st
          = Inr ([] @ concat (map (item_set_rules mc d n) (take (Suc k) ?keys)))"
    by (rule for_each_steps[OF _ ok[unfolded generate_rules_def] k(1)]) (rule inner)
  then have run: "for_each (slice_body mc d n s) ?is ?st
          = Inr ([] @ concat (map (item_set_rules mc d n) (take (Suc k) ?keys)))"
    using k(2) by simp
  let ?before = "?st @ concat (map (slice_rules mc d n s) (take j ?is))"
  have step: "slice_body mc d n (s) (?is ! j) ?before
          = Inr (?st @ concat (map (slice_rules mc d n s) (take (Suc j) ?is)))"
    by (rule for_each_steps[OF _ run j(1)]) (simp add: slice_rules_def slice_body_Inr)
  have tj: "take (Suc j) ?is = take j ?is @ [i]"
    using j by (metis take_Suc_conv_app_nth)
  from step have step': "slice_body mc d n s i ?before = Inr (?before @ slice_rules mc d n s i)"
    using j(2) tj by simp
  have keys: "?keys = take k ?keys @ s # drop (Suc k) ?keys"
    using k by (metis id_take_nth_drop)
  have isplit: "?is = take j ?is @ i # drop (Suc j) ?is"
    using j by (metis id_take_nth_drop)
  have "rules = concat (map (item_set_rules mc d n) ?keys)"
    by (rule generate_rules_Inr[OF ok])
  also have "\<dots> = concat (map (item_set_rules mc d n) (take k ?keys)) @ item_set_rules mc d n s
      @ concat (map (item_set_rules mc d n) (drop (Suc k) ?keys))"
    by (subst keys) simp
  also have "item_set_rules mc d n s = concat (map (slice_rules mc d n s) (take j ?is))
      @ slice_rules mc d n s i @ concat (map (slice_rules mc d n s) (drop (Suc j) ?is))"
    unfolding item_set_rules_def by (subst isplit) simp
  finally have "rules = ?before @ slice_rules mc d n s i @
      (concat (map (slice_rules mc d n s) (drop (Suc j) ?is))
       @ concat (map (item_set_rules mc d n) (drop (Suc k) ?keys)))"
    by simp
  with step' show ?thesis by blast
qed


section \<open>The support filter\<close>





text \<open>
  Claim C8: for a fixed mapping and total, raising \<open>min_support\<close> never adds a
  retained item set. Either both thresholds give a result, and what the larger one
  retains is among what the smaller one retains, or the total is 0 and both raise.
\<close>

theorem filter_item_sets_monotone:
  assumes "ms1 \<le> ms2"
  shows "(\<exists>k1 k2. filter_item_sets ms1 d n = Inr k1 \<and> filter_item_sets ms2 d n = Inr k2 \<and>
            set k2 \<subseteq> set k1 \<and> set (map fst k2) \<subseteq> set (map fst k1)) \<or>
         (n = 0 \<and> filter_item_sets ms1 d n = Inl ZeroDivisionError \<and>
            filter_item_sets ms2 d n = Inl ZeroDivisionError)"
  using assms by (auto simp: filter_item_sets_eq)

theorem filter_item_sets_monotone_witness:
  "(1/2 :: rat) \<le> 3/4 \<and>
   filter_item_sets (1/2) [([''a''], 1), ([''b''], 2), ([''c''], 0)] 2 =
     Inr [([''a''], 1), ([''b''], 2)] \<and>
   filter_item_sets (3/4) [([''a''], 1), ([''b''], 2), ([''c''], 0)] 2 = Inr [([''b''], 2)] \<and>
   set [([''b''], 2::int)] \<subseteq> set [([''a''], 1), ([''b''], 2)]"
  using filter_item_sets_monotone [of "1/2" "3/4" "[([''a''], 1), ([''b''], 2), ([''c''], 0)]" 2]
  by (simp add: filter_item_sets_eq)

section \<open>The empty transaction list\<close>

text \<open>
  Claim C10: for the empty transaction list the count mapping is empty, the filter
  evaluates no quotient although the total is 0, and \<open>analyze_associations\<close>
  returns the empty rule list without an error.
\<close>

theorem analyze_associations_empty:
  "count_item_sets [] = [] \<and>
   filter_item_sets min_support (count_item_sets []) (int (length ([] :: item list list))) = Inr [] \<and>
   analyze_associations min_support min_conf [] = Inr []"
  by (simp add: analyze_associations_def count_item_sets_def generate_rules_def)

theorem analyze_associations_empty_witness:
  "analyze_associations (1/2) (3/4) [] = Inr []"
  using analyze_associations_empty [of "1/2" "3/4"] by simp

section \<open>Rule generation\<close>

lemma generate_rules_example:
  "generate_rules (3/4) [([''a''], 2), ([''b''], 3), ([''a'', ''b''], 2)] 4 =
     Inr [\<lparr>rule_x = [''a''], rule_y = {''b''}, rule_conf = 1, rule_lift = 4 / 3\<rparr>]"
  by code_simp

lemma generate_rules_example2:
  "generate_rules (1/2) [([''a''], 2), ([''b''], 3), ([''a'', ''b''], 2)] 4 =
     Inr [\<lparr>rule_x = [''a''], rule_y = {''b''}, rule_conf = 1, rule_lift = 4 / 3\<rparr>,
          \<lparr>rule_x = [''b''], rule_y = {''a''}, rule_conf = 2 / 3, rule_lift = 4 / 3\<rparr>]"
  by code_simp

lemma slice_rules_lift:
  "r \<in> set (slice_rules mc d n s i) \<Longrightarrow>
     rule_x r \<in> set (combinations s i) \<and>
     rule_lift r = support_of d n s / slice_denominator d n s i"
  by (auto simp: slice_rules_def emitted_def split: if_splits)

text \<open>
  Claim C9: the rule list \<open>generate_rules\<close> returns is the concatenation, over the
  keys of the mapping in its iteration order, then over the antecedent sizes
  \<open>1, \<dots>, k - 1\<close> in ascending order, then over the candidates in the order
  \<open>combinations\<close> yields them, of what each candidate emits; nothing reorders it.
\<close>

theorem generate_rules_order:
  assumes "generate_rules min_conf d n = Inr rules"
  shows "rules =
     concat (map (\<lambda>item_set.
       concat (map (\<lambda>i.
         concat (map (\<lambda>x. emitted min_conf d n item_set i x) (combinations item_set i)))
         [1..<length item_set]))
       (map fst d))"
  using generate_rules_Inr[OF assms]
  by (simp add: item_set_rules_def[abs_def] slice_rules_def[abs_def])

theorem generate_rules_order_witness:
  "generate_rules (3/4) [([''a''], 2), ([''b''], 3), ([''a'', ''b''], 2)] 4 =
     Inr [\<lparr>rule_x = [''a''], rule_y = {''b''}, rule_conf = 1, rule_lift = 4 / 3\<rparr>] \<and>
   [\<lparr>rule_x = [''a''], rule_y = {''b''}, rule_conf = 1, rule_lift = 4 / 3\<rparr>] =
     concat (map (\<lambda>item_set.
       concat (map (\<lambda>i.
         concat (map (\<lambda>x. emitted (3/4) [([''a''], 2), ([''b''], 3), ([''a'', ''b''], 2)] 4 item_set i x)
           (combinations item_set i)))
         [1..<length item_set]))
       (map fst [([''a''], 2::int), ([''b''], 3), ([''a'', ''b''], 2)]))"
  using generate_rules_order [OF generate_rules_example] generate_rules_example by simp

text \<open>
  Claim C1: when \<open>generate_rules\<close> returns, then for every key \<open>item_set\<close> of the
  mapping and every antecedent size \<open>i\<close> with \<open>1 \<le> i < length item_set\<close>, the
  rules of that slice are a segment of the result, appended by the slice's run of the
  loop, and each of them has an antecedent of size \<open>i\<close> of the item set and the lift
  \<open>(count(S) / total) / D\<^sub>i\<close>, where \<open>D\<^sub>i\<close> is the product of \<open>count(c) / total\<close> over
  all combinations \<open>c\<close> of size \<open>i\<close>: one denominator for the whole slice.
\<close>

theorem generate_rules_lift:
  assumes "generate_rules min_conf d n = Inr rules"
    and "item_set \<in> set (map fst d)" and "1 \<le> i" and "i < length item_set"
  shows "\<exists>before slice after.
     rules = before @ slice @ after \<and>
     slice_body min_conf d n item_set i before = Inr (before @ slice) \<and>
     (\<forall>r \<in> set slice.
        rule_x r \<in> set (combinations item_set i) \<and>
        rule_lift r =
          (of_int (count_of d item_set) / of_int n) /
          prod_list (map (\<lambda>c. of_int (count_of d c) / of_int n) (combinations item_set i)))"
proof -
  from generate_rules_slice[OF assms] obtain before after where
    "rules = before @ slice_rules min_conf d n item_set i @ after"
    "slice_body min_conf d n item_set i before = Inr (before @ slice_rules min_conf d n item_set i)"
    by blast
  moreover have "\<forall>r \<in> set (slice_rules min_conf d n item_set i).
        rule_x r \<in> set (combinations item_set i) \<and>
        rule_lift r =
          (of_int (count_of d item_set) / of_int n) /
          prod_list (map (\<lambda>c. of_int (count_of d c) / of_int n) (combinations item_set i))"
    using slice_rules_lift[of _ min_conf d n item_set i]
    by (simp add: support_of_def[abs_def] slice_denominator_def)
  ultimately show ?thesis by blast
qed

theorem generate_rules_lift_witness:
  "generate_rules (1/2) [([''a''], 2), ([''b''], 3), ([''a'', ''b''], 2)] 4 =
     Inr [\<lparr>rule_x = [''a''], rule_y = {''b''}, rule_conf = 1, rule_lift = 4 / 3\<rparr>,
          \<lparr>rule_x = [''b''], rule_y = {''a''}, rule_conf = 2 / 3, rule_lift = 4 / 3\<rparr>] \<and>
   [''a'', ''b''] \<in> set (map fst [([''a''], 2::int), ([''b''], 3), ([''a'', ''b''], 2)]) \<and>
   (1::nat) < length [''a'', ''b''] \<and>
   (\<exists>before slice after.
     [\<lparr>rule_x = [''a''], rule_y = {''b''}, rule_conf = 1, rule_lift = 4 / 3\<rparr>,
      \<lparr>rule_x = [''b''], rule_y = {''a''}, rule_conf = 2 / 3, rule_lift = 4 / 3\<rparr>]
       = before @ slice @ after \<and>
     slice_body (1/2) [([''a''], 2), ([''b''], 3), ([''a'', ''b''], 2)] 4 [''a'', ''b''] 1 before
       = Inr (before @ slice) \<and>
     (\<forall>r \<in> set slice. rule_x r \<in> set (combinations [''a'', ''b''] 1) \<and> rule_lift r = 4 / 3))"
proof -
  have m: "[''a'', ''b''] \<in> set (map fst [([''a''], 2::int), ([''b''], 3), ([''a'', ''b''], 2)])"
    by simp
  have l: "(1::nat) < length [''a'', ''b'']" by simp
  have c: "count_of [([''a''], 2), ([''b''], 3), ([''a'', ''b''], 2)] [''a'', ''b''] = 2"
     "count_of [([''a''], 2), ([''b''], 3), ([''a'', ''b''], 2)] [''a''] = 2"
     "count_of [([''a''], 2), ([''b''], 3), ([''a'', ''b''], 2)] [''b''] = 3"
    by (simp_all add: count_of_def)
  have cb: "combinations [''a'', ''b''] 1 = [[''a''], [''b'']]" by code_simp
  from generate_rules_lift [OF generate_rules_example2 m order_refl l] show ?thesis
    using generate_rules_example2 m l by (simp add: c cb)
qed



section \<open>The enumeration of item sets\<close>

lemma foldl_extend: "foldl (\<lambda>acc i. acc @ f i) a xs = a @ concat (map f xs)"
  by (induction xs arbitrary: a) auto

lemma generate_item_sets_concat:
  "generate_item_sets t m = concat (map (combinations t) [1..<Suc m])"
  by (simp add: generate_item_sets_def foldl_extend)

lemma length_combinations: "length (combinations xs r) = length xs choose r"
  by (induction xs r rule: combinations.induct) auto

lemma combinations_length: "ys \<in> set (combinations xs r) \<Longrightarrow> length ys = r"
  by (induction xs r arbitrary: ys rule: combinations.induct) auto

lemma combinations_map: "combinations (map f xs) r = map (map f) (combinations xs r)"
  by (induction xs r rule: combinations.induct) auto

lemma combinations_nth:
  "combinations xs r = map (map (\<lambda>j. xs ! j)) (combinations [0..<length xs] r)"
proof (induction xs r rule: combinations.induct)
  case (1 xs)
  then show ?case by simp
next
  case (2 r)
  then show ?case by simp
next
  case (3 x xs r)
  have u: "[0..<length (x # xs)] = 0 # map Suc [0..<length xs]"
    by (simp add: upt_conv_Cons map_Suc_upt del: upt_Suc)
  show ?case
    unfolding u combinations.simps combinations_map
    by (simp add: 3 o_def)
qed

lemma combinations_filter_subseqs:
  "combinations xs r = filter (\<lambda>ys. length ys = r) (subseqs xs)"
proof (induction xs r rule: combinations.induct)
  case (1 xs)
  show ?case by (induction xs) (auto simp: Let_def filter_map o_def)
next
  case (2 r)
  then show ?case by simp
next
  case (3 x xs r)
  then show ?case by (simp add: Let_def filter_map o_def)
qed

lemma set_combinations: "set (combinations xs r) = {ys. subseq ys xs \<and> length ys = r}"
  by (auto simp: combinations_filter_subseqs)

lemma choose_sum: "(\<Sum>i\<leftarrow>[1..<Suc n]. n choose i) = 2 ^ n - 1"
proof -
  have "(\<Sum>i\<leftarrow>[0..<Suc n]. n choose i) = (\<Sum>k\<le>n. n choose k)"
    by (simp add: sum_list_distinct_conv_sum_set atLeast0AtMost[symmetric] atLeastLessThanSuc_atLeastAtMost del: upt_Suc)
  moreover have "[0..<Suc n] = 0 # [1..<Suc n]"
    by (simp add: upt_conv_Cons del: upt_Suc)
  ultimately have "1 + (\<Sum>i\<leftarrow>[1..<Suc n]. n choose i) = 2 ^ n"
    by (simp add: choose_row_sum del: upt_Suc)
  then show ?thesis by simp
qed

lemma length_generate_item_sets:
  "length (generate_item_sets t (length t)) = 2 ^ length t - 1"
proof -
  have "length (generate_item_sets t (length t)) = (\<Sum>i\<leftarrow>[1..<Suc (length t)]. length t choose i)"
    by (simp add: generate_item_sets_concat length_concat o_def length_combinations del: upt_Suc)
  then show ?thesis by (simp only: choose_sum)
qed


lemma subseq_set: "subseq xs ys \<Longrightarrow> set xs \<subseteq> set ys"
  by (induction rule: list_emb.induct) auto

lemma subseq_sorted_wrt: "subseq xs ys \<Longrightarrow> sorted_wrt P ys \<Longrightarrow> sorted_wrt P xs"
proof (induction rule: list_emb.induct)
  case (list_emb_Nil ys)
  then show ?case by simp
next
  case (list_emb_Cons xs ys y)
  then show ?case by simp
next
  case (list_emb_Cons2 x y xs ys)
  then have "set xs \<subseteq> set ys" by (simp add: subseq_set)
  with list_emb_Cons2 show ?case by auto
qed

lemma subseq_upt_iff:
  "subseq p [0..<n] \<longleftrightarrow> sorted_wrt (<) p \<and> set p \<subseteq> {..<n}"
proof
  assume s: "subseq p [0..<n]"
  then have "sorted_wrt (<) p" by (rule subseq_sorted_wrt) simp
  moreover from s have "set p \<subseteq> set [0..<n]" by (rule subseq_set)
  ultimately show "sorted_wrt (<) p \<and> set p \<subseteq> {..<n}" by auto
next
  assume a: "sorted_wrt (<) p \<and> set p \<subseteq> {..<n}"
  have "sorted_wrt (\<le>) [0..<n]" by (simp add: sorted_wrt_mono_rel[OF _ sorted_wrt_upt])
  with a show "subseq p [0..<n]"
    by (intro sorted_subset_imp_subseq) auto
qed

lemma set_position_sets:
  "set (position_sets n) = {p. p \<noteq> [] \<and> sorted_wrt (<) p \<and> set p \<subseteq> {..<n}}"
proof -
  have len: "length p \<le> n" if "subseq p [0..<n]" for p
    using list_emb_length[OF that] by simp
  have "p \<in> set (position_sets n) \<longleftrightarrow> p \<noteq> [] \<and> subseq p [0..<n]" for p
  proof
    assume "p \<in> set (position_sets n)"
    then show "p \<noteq> [] \<and> subseq p [0..<n]"
      by (auto simp: position_sets_def set_combinations)
  next
    assume a: "p \<noteq> [] \<and> subseq p [0..<n]"
    then have "1 \<le> length p" "length p < Suc n"
      using len[of p] by (simp_all add: Suc_le_eq less_Suc_eq_le)
    with a show "p \<in> set (position_sets n)"
      unfolding position_sets_def set_concat set_map set_combinations
      by (intro UN_I[of "combinations [0..<n] (length p)"] imageI)
        (auto simp: set_combinations)
  qed
  then show ?thesis by (auto simp: subseq_upt_iff)
qed

lemma lex_combinations:
  fixes xs :: "nat list"
  shows "sorted_wrt (<) xs \<Longrightarrow> sorted_wrt lex_less (combinations xs r)"
proof (induction xs r rule: combinations.induct)
  case (1 xs)
  then show ?case by simp
next
  case (2 r)
  then show ?case by simp
next
  case (3 x xs r)
  have cross: "lex_less (x # p) q" if "q \<in> set (combinations xs (Suc r))" for p q
  proof -
    from that have "subseq q xs" "length q = Suc r" by (simp_all add: set_combinations)
    then obtain y q' where q: "q = y # q'" "y \<in> set xs"
      by (cases q) (auto dest: subseq_set)
    with 3(3) show ?thesis by auto
  qed
  from 3 show ?case
    by (auto simp: sorted_wrt_append sorted_wrt_map cross)
qed

lemma size_then_lex_position_sets: "sorted_wrt size_then_lex (position_sets n)"
proof -
  have "sorted_wrt size_then_lex (concat (map (combinations [0..<n]) [1..<m]))" for m
  proof (induction m)
    case 0
    then show ?case by simp
  next
    case (Suc m)
    have blk: "sorted_wrt size_then_lex (combinations [0..<n] m)"
      by (rule sorted_wrt_mono_rel[OF _ lex_combinations[OF sorted_wrt_upt]])
        (auto simp: size_then_lex_def dest: combinations_length)
    show ?case
    proof (cases "1 \<le> m")
      case True
      then have "[1..<Suc m] = [1..<m] @ [m]" by simp
      moreover have "size_then_lex p q"
        if "p \<in> set (combinations [0..<n] i)" "i < m" "q \<in> set (combinations [0..<n] m)"
        for p q i
        using that by (auto simp: size_then_lex_def dest!: combinations_length)
      ultimately show ?thesis
        using Suc blk by (auto simp: sorted_wrt_append)
    next
      case False
      then show ?thesis by simp
    qed
  qed
  then show ?thesis by (simp only: position_sets_def)
qed

lemma lex_less_irrefl: "\<not> lex_less p p"
  by (induction p) auto

lemma size_then_lex_irrefl: "\<not> size_then_lex p p"
  by (simp add: size_then_lex_def lex_less_irrefl)

lemma distinct_position_sets: "distinct (position_sets n)"
proof -
  have "sorted_wrt (\<lambda>p q. p \<noteq> q) (position_sets n)"
    by (rule sorted_wrt_mono_rel[OF _ size_then_lex_position_sets])
      (auto simp: size_then_lex_irrefl)
  then show ?thesis by (simp add: distinct_conv_nth sorted_wrt_iff_nth_less) (metis nat_neq_iff)
qed

lemma generate_item_sets_positions:
  "generate_item_sets t (length t) = map (map (\<lambda>j. t ! j)) (position_sets (length t))"
proof -
  have "combinations t = (\<lambda>i. map (map (\<lambda>j. t ! j)) (combinations [0..<length t] i))"
    by (rule ext) (rule combinations_nth)
  then have "map (combinations t) [1..<Suc (length t)] =
      map (\<lambda>i. map (map (\<lambda>j. t ! j)) (combinations [0..<length t] i)) [1..<Suc (length t)]"
    by (rule arg_cong)
  then show ?thesis
    by (simp only: generate_item_sets_concat position_sets_def map_concat map_map o_def)
qed

lemma generate_item_sets_nonempty: "s \<in> set (generate_item_sets t m) \<Longrightarrow> s \<noteq> []"
  by (auto simp: generate_item_sets_concat dest!: combinations_length)

lemma distinct_generate_item_sets:
  assumes "distinct t"
  shows "distinct (generate_item_sets t (length t))"
proof -
  have "inj_on (map (\<lambda>j. t ! j)) (set (position_sets (length t)))"
  proof (rule inj_onI)
    fix p q
    assume p: "p \<in> set (position_sets (length t))" and q: "q \<in> set (position_sets (length t))"
      and e: "map (\<lambda>j. t ! j) p = map (\<lambda>j. t ! j) q"
    from p q have "j < length t" if "j \<in> set p \<union> set q" for j
      using that by (auto simp: set_position_sets)
    then have "inj_on (\<lambda>j. t ! j) (set p \<union> set q)"
      using assms by (intro inj_onI) (simp add: nth_eq_iff_index_eq)
    with e show "p = q" by (rule map_inj_on)
  qed
  then show ?thesis
    by (simp add: generate_item_sets_positions distinct_map distinct_position_sets)
qed

lemma generate_item_sets_repeated:
  "generate_item_sets [''a'', ''a''] (Suc (Suc 0)) = [[''a''], [''a''], [''a'', ''a'']]"
  by code_simp

text \<open>
  Claim C3, as stated (for every transaction): the item sets are not pairwise distinct
  as sequences when the transaction holds an item twice.
\<close>

theorem generate_item_sets_not_distinct:
  "generate_item_sets [''a'', ''a''] (length [''a'', ''a'']) = [[''a''], [''a''], [''a'', ''a'']] \<and>
   \<not> distinct (generate_item_sets [''a'', ''a''] (length [''a'', ''a'']))"
  by (simp add: generate_item_sets_repeated)

text \<open>
  Claim C3, amended: for a transaction \<open>t\<close> of length \<open>n\<close>, \<open>generate_item_sets\<close>
  returns \<open>2\<^sup>n - 1\<close> item sets, none of them empty. They are the selections of
  \<open>t\<close> at the lists of positions \<open>position_sets n\<close>, which are exactly the
  non-empty strictly ascending lists of positions below \<open>n\<close>, pairwise distinct and
  in ascending size with the lexicographic order of positions within one size. The
  item sets themselves are pairwise distinct when \<open>t\<close> holds no item twice.
\<close>

theorem generate_item_sets_enumeration:
  "length (generate_item_sets t (length t)) = 2 ^ length t - 1 \<and>
   (\<forall>s \<in> set (generate_item_sets t (length t)). s \<noteq> []) \<and>
   generate_item_sets t (length t) = map (map (\<lambda>j. t ! j)) (position_sets (length t)) \<and>
   set (position_sets (length t)) =
     {p. p \<noteq> [] \<and> sorted_wrt (<) p \<and> set p \<subseteq> {..<length t}} \<and>
   distinct (position_sets (length t)) \<and>
   sorted_wrt size_then_lex (position_sets (length t)) \<and>
   (distinct t \<longrightarrow> distinct (generate_item_sets t (length t)))"
proof -
  have "\<forall>s \<in> set (generate_item_sets t (length t)). s \<noteq> []"
    using generate_item_sets_nonempty by blast
  moreover have "generate_item_sets t (length t) =
      map (map (\<lambda>j. t ! j)) (position_sets (length t))"
    by (rule generate_item_sets_positions)
  moreover have "set (position_sets (length t)) =
      {p. p \<noteq> [] \<and> sorted_wrt (<) p \<and> set p \<subseteq> {..<length t}}"
    by (rule set_position_sets)
  ultimately show ?thesis
    using length_generate_item_sets[of t] distinct_position_sets[of "length t"]
      size_then_lex_position_sets[of "length t"] distinct_generate_item_sets[of t]
    by blast
qed

lemma generate_item_sets_abc:
  "generate_item_sets [''a'', ''b'', ''c''] (Suc (Suc (Suc 0))) =
     [[''a''], [''b''], [''c''], [''a'', ''b''], [''a'', ''c''], [''b'', ''c''],
      [''a'', ''b'', ''c'']]"
  by code_simp

lemma position_sets_3:
  "position_sets (Suc (Suc (Suc 0))) = [[0], [1], [2], [0, 1], [0, 2], [1, 2], [0, 1, 2]]"
  by code_simp

theorem generate_item_sets_enumeration_witness:
  "length (generate_item_sets [''a'', ''b'', ''c''] (length [''a'', ''b'', ''c''])) = 7 \<and>
   generate_item_sets [''a'', ''b'', ''c''] (length [''a'', ''b'', ''c'']) =
     [[''a''], [''b''], [''c''], [''a'', ''b''], [''a'', ''c''], [''b'', ''c''],
      [''a'', ''b'', ''c'']] \<and>
   position_sets (length [''a'', ''b'', ''c'']) =
     [[0], [1], [2], [0, 1], [0, 2], [1, 2], [0, 1, 2]] \<and>
   sorted_wrt size_then_lex (position_sets (length [''a'', ''b'', ''c''])) \<and>
   distinct [''a'', ''b'', ''c''] \<and>
   distinct (generate_item_sets [''a'', ''b'', ''c''] (length [''a'', ''b'', ''c'']))"
  using generate_item_sets_enumeration [of "[''a'', ''b'', ''c'']"]
  by (simp add: position_sets_3 generate_item_sets_abc)

section \<open>The counts\<close>

lemma set_generate_item_sets:
  "set (generate_item_sets t (length t)) = {s. s \<noteq> [] \<and> subseq s t}"
proof -
  have "s \<in> set (generate_item_sets t (length t)) \<longleftrightarrow> s \<noteq> [] \<and> subseq s t" for s
  proof
    assume "s \<in> set (generate_item_sets t (length t))"
    then show "s \<noteq> [] \<and> subseq s t"
      by (auto simp: generate_item_sets_concat set_combinations)
  next
    assume a: "s \<noteq> [] \<and> subseq s t"
    then have "length s \<le> length t" by (auto dest: list_emb_length)
    with a have "1 \<le> length s" "length s < Suc (length t)"
      by (simp_all add: Suc_le_eq)
    with a show "s \<in> set (generate_item_sets t (length t))"
      unfolding generate_item_sets_concat set_concat set_map
      by (intro UN_I[of "combinations t (length s)"] imageI) (auto simp: set_combinations)
  qed
  then show ?thesis by auto
qed

lemma count_of_increment:
  "count_of (increment d k) k' = count_of d k' + (if k = k' then 1 else 0)"
  by (induction d k rule: increment.induct) (auto simp: count_of_def)

lemma count_of_foldl_increment:
  "count_of (foldl increment d ks) k = count_of d k + int (count_list ks k)"
  by (induction ks arbitrary: d) (auto simp: count_of_increment)

lemma count_of_count_loop:
  "count_of (foldl (\<lambda>d t. foldl increment d (generate_item_sets t (length t))) d ts) k =
     count_of d k + (\<Sum>t\<leftarrow>ts. int (count_list (generate_item_sets t (length t)) k))"
  by (induction ts arbitrary: d) (auto simp: count_of_foldl_increment)

lemma count_of_count_item_sets:
  "count_of (count_item_sets ts) k =
     (\<Sum>t\<leftarrow>ts. int (count_list (generate_item_sets t (length t)) k))"
  by (simp add: count_item_sets_def count_of_count_loop) (simp add: count_of_def)

lemma count_list_distinct: "distinct xs \<Longrightarrow> count_list xs x = (if x \<in> set xs then 1 else 0)"
  by (induction xs) auto

lemma sum_list_indicator:
  "(\<Sum>t\<leftarrow>ts. int (if P t then 1 else 0)) = int (length (filter P ts))"
  by (induction ts) auto

lemma count_of_count_item_sets_distinct:
  assumes "\<forall>t \<in> set ts. distinct t"
  shows "count_of (count_item_sets ts) k = int (length (filter (\<lambda>t. k \<noteq> [] \<and> subseq k t) ts))"
proof -
  have "map (\<lambda>t. int (count_list (generate_item_sets t (length t)) k)) ts =
        map (\<lambda>t. int (if k \<noteq> [] \<and> subseq k t then 1 else 0)) ts"
    using assms
    by (intro map_cong refl)
      (simp add: count_list_distinct distinct_generate_item_sets set_generate_item_sets)
  then show ?thesis
    by (simp only: count_of_count_item_sets sum_list_indicator)
qed

lemma count_of_positive:
  assumes "t \<in> set ts" "k \<in> set (generate_item_sets t (length t))"
  shows "0 < count_of (count_item_sets ts) k"
proof -
  have "0 < count_list (generate_item_sets t (length t)) k"
    using assms(2) count_list_0_iff[of "generate_item_sets t (length t)" k] by auto
  moreover have "int (count_list (generate_item_sets t (length t)) k)
      \<le> (\<Sum>t\<leftarrow>ts. int (count_list (generate_item_sets t (length t)) k))"
    by (rule member_le_sum_list) (use assms(1) in auto)
  ultimately show ?thesis by (simp add: count_of_count_item_sets)
qed

lemma count_item_sets_repeated:
  "count_item_sets [[''a'', ''a'']] = [([''a''], 2), ([''a'', ''a''], 1)]"
  by code_simp

text \<open>
  Claim C2, as stated (for every transaction list): a transaction that holds an item
  twice increments a count once per position, so the count of an item set can exceed
  the number of transactions and the number of transactions that contain it.
\<close>

theorem count_item_sets_repeated_item:
  "count_of (count_item_sets [[''a'', ''a'']]) [''a''] = 2 \<and>
   int (length [[''a'', ''a'']]) = 1 \<and>
   \<not> count_of (count_item_sets [[''a'', ''a'']]) [''a''] \<le> int (length [[''a'', ''a'']])"
  by (simp add: count_item_sets_repeated count_of_def)

text \<open>
  Claim C2, amended: the count \<open>count_item_sets\<close> records for an item set is the
  number of times the enumeration emits it, summed over the transactions, and it is
  positive as soon as one transaction emits it. When no transaction holds an item
  twice, every transaction adds at most one: the count is the number of transactions
  that contain the (non-empty) item set as a subsequence, and it is at most the number
  of transactions.
\<close>

theorem count_item_sets_counts:
  "count_of (count_item_sets transactions) item_set =
     (\<Sum>t\<leftarrow>transactions. int (count_list (generate_item_sets t (length t)) item_set)) \<and>
   ((\<exists>t \<in> set transactions. item_set \<in> set (generate_item_sets t (length t))) \<longrightarrow>
      0 < count_of (count_item_sets transactions) item_set) \<and>
   ((\<forall>t \<in> set transactions. distinct t) \<longrightarrow>
      count_of (count_item_sets transactions) item_set =
        int (length (filter (\<lambda>t. item_set \<noteq> [] \<and> subseq item_set t) transactions)) \<and>
      count_of (count_item_sets transactions) item_set \<le> int (length transactions))"
proof -
  have "count_of (count_item_sets transactions) item_set \<le> int (length transactions)"
    if "\<forall>t \<in> set transactions. distinct t"
    using count_of_count_item_sets_distinct[OF that, of item_set] by simp
  then show ?thesis
    using count_of_count_item_sets[of transactions item_set]
      count_of_positive[of _ transactions item_set]
      count_of_count_item_sets_distinct[of transactions item_set]
    by blast
qed

lemma count_item_sets_example:
  "count_item_sets [[''a'', ''b''], [''a'']] = [([''a''], 2), ([''b''], 1), ([''a'', ''b''], 1)]"
  by code_simp

lemma generate_item_sets_ab:
  "generate_item_sets [''a'', ''b''] (Suc (Suc 0)) = [[''a''], [''b''], [''a'', ''b'']]"
  by code_simp

theorem count_item_sets_counts_witness:
  "[''a'', ''b''] \<in> set [[''a'', ''b''], [''a'']] \<and>
   [''a''] \<in> set (generate_item_sets [''a'', ''b''] (length [''a'', ''b''])) \<and>
   distinct [''a'', ''b''] \<and> distinct [''a''] \<and>
   count_of (count_item_sets [[''a'', ''b''], [''a'']]) [''a''] = 2 \<and>
   int (length (filter (\<lambda>t. [''a''] \<noteq> [] \<and> subseq [''a''] t) [[''a'', ''b''], [''a'']])) = 2 \<and>
   count_of (count_item_sets [[''a'', ''b''], [''a'']]) [''a''] \<le> int (length [[''a'', ''b''], [''a'']]) \<and>
   0 < count_of (count_item_sets [[''a'', ''b''], [''a'']]) [''a'']"
  using count_item_sets_counts [of "[[''a'', ''b''], [''a'']]" "[''a'']"]
  by (simp add: generate_item_sets_ab count_item_sets_example count_of_def)

section \<open>From the transactions to the rules\<close>

lemma keys_increment:
  "map fst (increment d k) = (if k \<in> set (map fst d) then map fst d else map fst d @ [k])"
  by (induction d k rule: increment.induct) auto

lemma distinct_keys_increment: "distinct (map fst d) \<Longrightarrow> distinct (map fst (increment d k))"
  by (simp add: keys_increment)

lemma distinct_keys_foldl_increment:
  "distinct (map fst d) \<Longrightarrow> distinct (map fst (foldl increment d ks))"
  by (induction ks arbitrary: d) (auto simp: distinct_keys_increment)

lemma distinct_keys_count_loop:
  "distinct (map fst d) \<Longrightarrow>
     distinct (map fst (foldl (\<lambda>d t. foldl increment d (generate_item_sets t (length t))) d ts))"
  by (induction ts arbitrary: d) (auto simp: distinct_keys_foldl_increment)

lemma distinct_keys_count_item_sets: "distinct (map fst (count_item_sets ts))"
  by (simp add: count_item_sets_def distinct_keys_count_loop)

lemma set_keys_increment: "fst ` set (increment d k) = insert k (fst ` set d)"
  by (induction d k rule: increment.induct) auto

lemma set_keys_foldl_increment:
  "fst ` set (foldl increment d ks) = fst ` set d \<union> set ks"
  by (induction ks arbitrary: d) (simp_all add: set_keys_increment)

lemma set_keys_count_loop:
  "fst ` set (foldl (\<lambda>d t. foldl increment d (generate_item_sets t (length t))) d ts) =
     fst ` set d \<union> (\<Union>t \<in> set ts. set (generate_item_sets t (length t)))"
  by (induction ts arbitrary: d) (simp_all add: set_keys_foldl_increment Un_assoc)

lemma set_keys_count_item_sets:
  "fst ` set (count_item_sets ts) = (\<Union>t \<in> set ts. set (generate_item_sets t (length t)))"
  unfolding count_item_sets_def by (simp add: set_keys_count_loop)

lemma map_of_count_item_sets:
  assumes "map_of (count_item_sets ts) k = Some c"
  shows "c = count_of (count_item_sets ts) k \<and> 1 \<le> c"
proof -
  from assms have c: "c = count_of (count_item_sets ts) k" by (simp add: count_of_def)
  from assms have "k \<in> fst ` set (count_item_sets ts)"
    by (metis map_of_eq_None_iff option.distinct(1))
  then obtain t where "t \<in> set ts" "k \<in> set (generate_item_sets t (length t))"
    by (auto simp: set_keys_count_item_sets)
  then have "0 < count_of (count_item_sets ts) k" by (rule count_of_positive)
  with c show ?thesis by simp
qed

lemma map_of_filter_distinct:
  "distinct (map fst d) \<Longrightarrow>
     map_of (filter P d) k =
       (case map_of d k of None \<Rightarrow> None | Some c \<Rightarrow> if P (k, c) then Some c else None)"
proof (induction d)
  case Nil
  then show ?case by simp
next
  case (Cons e d)
  obtain k' c' where e: "e = (k', c')" by (cases e)
  from Cons.prems e have "map_of d k' = None"
    by (simp add: map_of_eq_None_iff)
  with Cons e show ?case by (auto split: option.splits)
qed

lemma length_filter_mono:
  "(\<And>x. x \<in> set xs \<Longrightarrow> P x \<Longrightarrow> Q x) \<Longrightarrow> length (filter P xs) \<le> length (filter Q xs)"
  by (induction xs) auto

lemma count_of_subseq_mono:
  assumes d: "\<forall>t \<in> set ts. distinct t" and x: "subseq x s" "x \<noteq> []"
  shows "count_of (count_item_sets ts) s \<le> count_of (count_item_sets ts) x"
proof -
  have "length (filter (\<lambda>t. s \<noteq> [] \<and> subseq s t) ts) \<le> length (filter (\<lambda>t. x \<noteq> [] \<and> subseq x t) ts)"
    by (rule length_filter_mono) (use x in \<open>auto intro: subseq_order.trans\<close>)
  then show ?thesis
    by (simp add: count_of_count_item_sets_distinct[OF d])
qed


lemma filter_item_sets_Inr:
  assumes "filter_item_sets ms d n = Inr fis"
  shows "fis = filter (\<lambda>(s, c). ms \<le> of_int c / of_int n) d \<and> (fis \<noteq> [] \<longrightarrow> n \<noteq> 0)"
  using assms by (auto simp: filter_item_sets_eq split: if_splits)

lemma retained_entry:
  assumes f: "filter_item_sets ms (count_item_sets cells) n = Inr fis"
  shows "map_of fis k = Some c \<longleftrightarrow>
     map_of (count_item_sets cells) k = Some c \<and> ms \<le> of_int c / of_int n"
proof -
  from filter_item_sets_Inr[OF f]
  have "fis = filter (\<lambda>(s, c). ms \<le> of_int c / of_int n) (count_item_sets cells)" by simp
  then show ?thesis
    by (auto simp: map_of_filter_distinct[OF distinct_keys_count_item_sets] split: option.splits)
qed

lemma retained_count:
  assumes f: "filter_item_sets ms (count_item_sets cells) n = Inr fis"
    and k: "map_of fis k = Some c"
  shows "1 \<le> c \<and> c = count_of (count_item_sets cells) k \<and> n \<noteq> 0"
proof -
  from k have "fis \<noteq> []" by auto
  with filter_item_sets_Inr[OF f] have "n \<noteq> 0" by simp
  moreover from retained_entry[OF f] k have "map_of (count_item_sets cells) k = Some c" by simp
  ultimately show ?thesis using map_of_count_item_sets by blast
qed

lemma combinations_subseq: "x \<in> set (combinations s i) \<Longrightarrow> subseq x s \<and> length x = i"
  by (simp add: set_combinations)

lemma retained_antecedent:
  assumes d: "\<forall>t \<in> set cells. distinct t"
    and f: "filter_item_sets ms (count_item_sets cells) (int (length cells)) = Inr fis"
    and s: "map_of fis s = Some cs" and i: "1 \<le> i" and x: "x \<in> set (combinations s i)"
  shows "\<exists>cx. map_of fis x = Some cx \<and> cs \<le> cx"
proof -
  let ?n = "int (length cells)"
  let ?counts = "count_item_sets cells"
  from retained_count[OF f s] have cs: "1 \<le> cs" "cs = count_of ?counts s" "?n \<noteq> 0" by simp_all
  from retained_entry[OF f] s have keep: "ms \<le> of_int cs / of_int ?n" by simp
  from combinations_subseq[OF x] i have sub: "subseq x s" "x \<noteq> []" by auto
  define cx where "cx = count_of ?counts x"
  from count_of_subseq_mono[OF d sub] cs have le: "cs \<le> cx" by (simp add: cx_def)
  with cs have "cx \<noteq> 0" by simp
  then have mx: "map_of ?counts x = Some cx"
    by (auto simp: cx_def count_of_def split: option.splits)
  from cs have "0 < ?n" by simp
  then have "(of_int cs :: rat) / of_int ?n \<le> of_int cx / of_int ?n"
    using le by (simp add: divide_right_mono)
  with keep have "ms \<le> of_int cx / of_int ?n" by simp
  with mx retained_entry[OF f] have "map_of fis x = Some cx" by simp
  with le show ?thesis by blast
qed







lemma analyze_associations_key_error:
  "analyze_associations (3/4) (3/4) [[''a'', ''b'', ''b''], [''c'']] = Inl KeyError"
  by code_simp

lemma filter_item_sets_repeated:
  "filter_item_sets (3/4) (count_item_sets [[''a'', ''b'', ''b''], [''c'']]) 2 =
     Inr [([''b''], 2), ([''a'', ''b''], 2)]"
  by code_simp

text \<open>
  Claim C6, as stated (for every input with non-empty transactions): with a transaction
  that holds an item twice, a retained item set can have an antecedent that the filter
  dropped, and the lookup raises \<^verbatim>\<open>KeyError\<close>.
\<close>

theorem analyze_associations_missing_antecedent:
  "filter_item_sets (3/4) (count_item_sets [[''a'', ''b'', ''b''], [''c'']])
     (int (length [[''a'', ''b'', ''b''], [''c'']])) = Inr [([''b''], 2), ([''a'', ''b''], 2)] \<and>
   [''a''] \<in> set (combinations [''a'', ''b''] 1) \<and>
   lookup [([''b''], 2), ([''a'', ''b''], 2)] [''a''] = Inl KeyError \<and>
   analyze_associations (3/4) (3/4) [[''a'', ''b'', ''b''], [''c'']] = Inl KeyError"
  by (simp add: analyze_associations_key_error filter_item_sets_repeated lookup_def)

text \<open>
  Claim C6, amended: when no transaction holds an item twice, every combination \<open>x\<close>
  of size \<open>i\<close> (\<open>1 \<le> i < k\<close>) of a retained frequent item set is a key of the filtered
  mapping with a count of at least 1, so the lookups succeed, the division that
  computes the confidence succeeds, and so does the list comprehension with the
  divisions by the (non-zero) number of transactions that make up the slice
  denominator.
\<close>

theorem antecedents_retained:
  assumes "\<forall>t \<in> set cells. distinct t"
    and "filter_item_sets min_support (count_item_sets cells) (int (length cells))
           = Inr frequent_item_sets"
    and "item_set \<in> set (map fst frequent_item_sets)"
    and "1 \<le> i" and "i < length item_set" and "x \<in> set (combinations item_set i)"
  shows "(\<exists>cs c confidence.
            lookup frequent_item_sets item_set = Inr cs \<and>
            lookup frequent_item_sets x = Inr c \<and> 1 \<le> c \<and>
            int_truediv cs c = Inr confidence) \<and>
         (\<exists>freqs. antecedent_freqs frequent_item_sets (int (length cells))
                     (combinations item_set i) = Inr freqs)"
proof -
  let ?n = "int (length cells)"
  from assms(3) obtain cs where cs: "map_of frequent_item_sets item_set = Some cs"
    by (metis map_of_eq_None_iff not_Some_eq set_map)
  from retained_count[OF assms(2) cs] have n: "1 \<le> cs" "?n \<noteq> 0" by simp_all
  have each: "\<exists>c. map_of frequent_item_sets y = Some c \<and> cs \<le> c"
    if "y \<in> set (combinations item_set i)" for y
    using retained_antecedent[OF assms(1) assms(2) cs assms(4) that] .
  from each[OF assms(6)] obtain c where c: "map_of frequent_item_sets x = Some c" "cs \<le> c"
    by blast
  with n have "1 \<le> c" "c \<noteq> 0" by simp_all
  with cs c have "lookup frequent_item_sets item_set = Inr cs \<and>
      lookup frequent_item_sets x = Inr c \<and> 1 \<le> c \<and>
      int_truediv cs c = Inr (of_int cs / of_int c)"
    by (simp add: lookup_def int_truediv_def)
  moreover have "antecedent_freqs frequent_item_sets ?n (combinations item_set i) =
      Inr (map (support_of frequent_item_sets ?n) (combinations item_set i))"
    by (rule antecedent_freqs_total) (use each n in blast)+
  ultimately show ?thesis by blast
qed

lemma filter_item_sets_example:
  "filter_item_sets (1/2) (count_item_sets [[''a'', ''b''], [''a'', ''b'', ''c''], [''a'']]) 3 =
     Inr [([''a''], 3), ([''b''], 2), ([''a'', ''b''], 2)]"
  by code_simp

theorem antecedents_retained_witness:
  "distinct [''a'', ''b''] \<and> distinct [''a'', ''b'', ''c''] \<and> distinct [''a''] \<and>
   filter_item_sets (1/2) (count_item_sets [[''a'', ''b''], [''a'', ''b'', ''c''], [''a'']])
     (int (length [[''a'', ''b''], [''a'', ''b'', ''c''], [''a'']])) =
       Inr [([''a''], 3), ([''b''], 2), ([''a'', ''b''], 2)] \<and>
   [''a'', ''b''] \<in> set (map fst [([''a''], 3::int), ([''b''], 2), ([''a'', ''b''], 2)]) \<and>
   (1::nat) < length [''a'', ''b''] \<and>
   [''b''] \<in> set (combinations [''a'', ''b''] 1) \<and>
   lookup [([''a''], 3), ([''b''], 2), ([''a'', ''b''], 2)] [''b''] = Inr 2 \<and>
   int_truediv 2 2 = Inr 1 \<and>
   (\<exists>freqs. antecedent_freqs [([''a''], 3), ([''b''], 2), ([''a'', ''b''], 2)]
      (int (length [[''a'', ''b''], [''a'', ''b'', ''c''], [''a'']]))
      (combinations [''a'', ''b''] 1) = Inr freqs)"
proof -
  have d: "\<forall>t \<in> set [[''a'', ''b''], [''a'', ''b'', ''c''], [''a'']]. distinct t" by simp
  have f: "filter_item_sets (1/2) (count_item_sets [[''a'', ''b''], [''a'', ''b'', ''c''], [''a'']])
     (int (length [[''a'', ''b''], [''a'', ''b'', ''c''], [''a'']])) =
       Inr [([''a''], 3), ([''b''], 2), ([''a'', ''b''], 2)]"
    by (simp add: filter_item_sets_example)
  have m: "[''a'', ''b''] \<in> set (map fst [([''a''], 3::int), ([''b''], 2), ([''a'', ''b''], 2)])"
    by simp
  have l: "(1::nat) < length [''a'', ''b'']" by simp
  have cb: "combinations [''a'', ''b''] 1 = [[''a''], [''b'']]" by code_simp
  have x: "[''b''] \<in> set (combinations [''a'', ''b''] 1)" by (simp add: cb)
  from antecedents_retained [OF d f m order_refl l x] show ?thesis
    using d f m l x by (simp add: lookup_def int_truediv_def)
qed

end
